theory Spec2Isabelle
  imports Main
begin

section \<open>Python values and exceptions\<close>

text \<open>
  The exceptions the built-in operations used by \<^verbatim>\<open>task_1.py\<close> can raise:
  list item assignment out of range (IndexError), a dictionary operation on a missing key
  or on an empty dictionary (KeyError), and \<^verbatim>\<open>random.randint\<close> on an empty range
  (ValueError). A function that can raise returns \<open>error + 'a\<close>, \<open>Inl\<close> being the raise.
\<close>

datatype error = IndexError | KeyError | ValueError

subsection \<open>Lists: slicing and item assignment\<close>

text \<open>
  \<^verbatim>\<open>array[lo:hi]\<close> never raises: a negative bound counts from the end, and both bounds
  are then clamped to \<open>[0, len]\<close>.
\<close>

definition slice_bound :: "int \<Rightarrow> int \<Rightarrow> int" where
  "slice_bound n i = (if i < 0 then max 0 (i + n) else min i n)"

definition py_slice :: "'a list \<Rightarrow> int \<Rightarrow> int \<Rightarrow> 'a list" where
  "py_slice xs lo hi =
     (let n = int (length xs); s = slice_bound n lo; e = slice_bound n hi
      in drop (nat s) (take (nat e) xs))"

text \<open>
  \<^verbatim>\<open>array[index] = value\<close>: an index in \<open>[-len, 0)\<close> counts from the end, an index
  outside \<open>[-len, len)\<close> raises IndexError.
\<close>

definition list_setitem :: "'a list \<Rightarrow> int \<Rightarrow> 'a \<Rightarrow> error + 'a list" where
  "list_setitem xs i v =
     (let n = int (length xs); j = (if i < 0 then i + n else i)
      in if 0 \<le> j \<and> j < n then Inr (xs[nat j := v]) else Inl IndexError)"

subsection \<open>OrderedDict\<close>

text \<open>
  An \<^verbatim>\<open>OrderedDict\<close> is an association list in iteration order (oldest entry first)
  in which every key occurs once.
\<close>

definition od_contains :: "('k \<times> 'v) list \<Rightarrow> 'k \<Rightarrow> bool" where
  "od_contains d k = (k \<in> set (map fst d))"

definition od_getitem :: "('k \<times> 'v) list \<Rightarrow> 'k \<Rightarrow> error + 'v" where
  "od_getitem d k = (case map_of d k of None \<Rightarrow> Inl KeyError | Some v \<Rightarrow> Inr v)"

definition od_move_to_end :: "('k \<times> 'v) list \<Rightarrow> 'k \<Rightarrow> error + ('k \<times> 'v) list" where
  "od_move_to_end d k =
     (case map_of d k of
        None \<Rightarrow> Inl KeyError
      | Some v \<Rightarrow> Inr (filter (\<lambda>e. fst e \<noteq> k) d @ [(k, v)]))"

fun od_setitem :: "('k \<times> 'v) list \<Rightarrow> 'k \<Rightarrow> 'v \<Rightarrow> ('k \<times> 'v) list" where
  "od_setitem [] k v = [(k, v)]"
| "od_setitem (e # d) k v = (if fst e = k then (k, v) # d else e # od_setitem d k v)"

definition od_popitem_first :: "('k \<times> 'v) list \<Rightarrow> error + (('k \<times> 'v) \<times> ('k \<times> 'v) list)" where
  "od_popitem_first d = (case d of [] \<Rightarrow> Inl KeyError | e # d' \<Rightarrow> Inr (e, d'))"

definition od_delitem :: "('k \<times> 'v) list \<Rightarrow> 'k \<Rightarrow> error + ('k \<times> 'v) list" where
  "od_delitem d k =
     (if od_contains d k then Inr (filter (\<lambda>e. fst e \<noteq> k) d) else Inl KeyError)"

section \<open>LRUCache\<close>

type_synonym key = "int \<times> int"

record LRUCache =
  cache :: "(key \<times> int) list"
  capacity :: int

definition LRUCache_init :: "int \<Rightarrow> error + LRUCache" where
  "LRUCache_init cap = Inr \<lparr>cache = [], capacity = cap\<rparr>"

definition LRUCache_get :: "LRUCache \<Rightarrow> key \<Rightarrow> error + (int \<times> LRUCache)" where
  "LRUCache_get c k =
     (if \<not> od_contains (cache c) k then Inr (- 1, c)
      else case od_move_to_end (cache c) k of
             Inl e \<Rightarrow> Inl e
           | Inr d \<Rightarrow> (case od_getitem d k of
                         Inl e \<Rightarrow> Inl e
                       | Inr v \<Rightarrow> Inr (v, c\<lparr>cache := d\<rparr>)))"

definition LRUCache_put :: "LRUCache \<Rightarrow> key \<Rightarrow> int \<Rightarrow> error + LRUCache" where
  "LRUCache_put c k v =
     (case (if od_contains (cache c) k then od_move_to_end (cache c) k else Inr (cache c)) of
        Inl e \<Rightarrow> Inl e
      | Inr d \<Rightarrow>
          (let d' = od_setitem d k v
           in if int (length d') > capacity c
              then (case od_popitem_first d' of
                      Inl e \<Rightarrow> Inl e
                    | Inr (_, d'') \<Rightarrow> Inr (c\<lparr>cache := d''\<rparr>))
              else Inr (c\<lparr>cache := d'\<rparr>)))"

definition LRUCache_get_all_keys :: "LRUCache \<Rightarrow> key list" where
  "LRUCache_get_all_keys c = map fst (cache c)"

section \<open>Range sums and updates\<close>

definition range_sum_no_cache :: "int list \<Rightarrow> int \<Rightarrow> int \<Rightarrow> int" where
  "range_sum_no_cache array left right = sum_list (py_slice array left (right + 1))"

definition update_no_cache :: "int list \<Rightarrow> int \<Rightarrow> int \<Rightarrow> error + int list" where
  "update_no_cache array index val = list_setitem array index val"

definition range_sum_with_cache ::
  "int list \<Rightarrow> int \<Rightarrow> int \<Rightarrow> LRUCache \<Rightarrow> error + (int \<times> LRUCache)" where
  "range_sum_with_cache array left right c =
     (let k = (left, right)
      in case LRUCache_get c k of
           Inl e \<Rightarrow> Inl e
         | Inr (cached_result, c1) \<Rightarrow>
             if cached_result \<noteq> - 1 then Inr (cached_result, c1)
             else (let result = sum_list (py_slice array left (right + 1))
                   in case LRUCache_put c1 k result of
                        Inl e \<Rightarrow> Inl e
                      | Inr c2 \<Rightarrow> Inr (result, c2)))"

text \<open>The second loop of \<^verbatim>\<open>update_with_cache\<close>: delete each selected key still present.\<close>

fun invalidate :: "key list \<Rightarrow> LRUCache \<Rightarrow> error + LRUCache" where
  "invalidate [] c = Inr c"
| "invalidate (k # ks) c =
     (if od_contains (cache c) k
      then (case od_delitem (cache c) k of
              Inl e \<Rightarrow> Inl e
            | Inr d \<Rightarrow> invalidate ks (c\<lparr>cache := d\<rparr>))
      else invalidate ks c)"

definition update_with_cache ::
  "int list \<Rightarrow> int \<Rightarrow> int \<Rightarrow> LRUCache \<Rightarrow> error + (int list \<times> LRUCache)" where
  "update_with_cache array index val c =
     (case list_setitem array index val of
        Inl e \<Rightarrow> Inl e
      | Inr array' \<Rightarrow>
          (let keys_to_invalidate =
                 filter (\<lambda>(left, right). left \<le> index \<and> index \<le> right) (LRUCache_get_all_keys c)
           in case invalidate keys_to_invalidate c of
                Inl e \<Rightarrow> Inl e
              | Inr c' \<Rightarrow> Inr (array', c')))"

section \<open>Sequences of cache calls\<close>

text \<open>
  A client of the cache calls \<^verbatim>\<open>get\<close> and \<^verbatim>\<open>put\<close> in some order; \<open>run_calls\<close> performs
  the calls from left to right on one cache and stops at the first exception.
\<close>

datatype call = Get key | Put key int

fun run_calls :: "LRUCache \<Rightarrow> call list \<Rightarrow> error + LRUCache" where
  "run_calls c [] = Inr c"
| "run_calls c (Get k # cs) =
     (case LRUCache_get c k of Inl e \<Rightarrow> Inl e | Inr (_, c') \<Rightarrow> run_calls c' cs)"
| "run_calls c (Put k v # cs) =
     (case LRUCache_put c k v of Inl e \<Rightarrow> Inl e | Inr c' \<Rightarrow> run_calls c' cs)"

text \<open>
  Calling \<^verbatim>\<open>get\<close> on one key \<open>n\<close> times in a row, with nothing in between; the
  values returned are collected in call order.
\<close>

fun get_repeatedly :: "nat \<Rightarrow> LRUCache \<Rightarrow> key \<Rightarrow> error + (int list \<times> LRUCache)" where
  "get_repeatedly 0 c k = Inr ([], c)"
| "get_repeatedly (Suc n) c k =
     (case LRUCache_get c k of
        Inl e \<Rightarrow> Inl e
      | Inr (v, c') \<Rightarrow>
          (case get_repeatedly n c' k of
             Inl e \<Rightarrow> Inl e
           | Inr (vs, c'') \<Rightarrow> Inr (v # vs, c'')))"

text \<open>The representation invariant of the dictionary: a key has one entry.\<close>

definition wf_cache :: "LRUCache \<Rightarrow> bool" where
  "wf_cache c = distinct (map fst (cache c))"

section \<open>Running a workload with and without the cache\<close>

text \<open>
  The two loops of the main program over the list of queries, a query being a tuple
  \<^verbatim>\<open>("Range", left, right)\<close> or \<^verbatim>\<open>("Update", index, value)\<close>; a tuple with another tag
  is skipped. The program discards the sums; here they are collected in query order so that
  the two runs can be compared.
\<close>

type_synonym query = "string \<times> int \<times> int"

fun run_no_cache :: "int list \<Rightarrow> query list \<Rightarrow> error + int list" where
  "run_no_cache array [] = Inr []"
| "run_no_cache array ((query_type, arg1, arg2) # qs) =
     (if query_type = ''Range'' then
        (let result = range_sum_no_cache array arg1 arg2
         in case run_no_cache array qs of
              Inl e \<Rightarrow> Inl e
            | Inr results \<Rightarrow> Inr (result # results))
      else if query_type = ''Update'' then
        (case update_no_cache array arg1 arg2 of
           Inl e \<Rightarrow> Inl e
         | Inr array' \<Rightarrow> run_no_cache array' qs)
      else run_no_cache array qs)"

fun run_with_cache :: "int list \<Rightarrow> LRUCache \<Rightarrow> query list \<Rightarrow> error + int list" where
  "run_with_cache array c [] = Inr []"
| "run_with_cache array c ((query_type, arg1, arg2) # qs) =
     (if query_type = ''Range'' then
        (case range_sum_with_cache array arg1 arg2 c of
           Inl e \<Rightarrow> Inl e
         | Inr (result, c') \<Rightarrow>
             (case run_with_cache array c' qs of
                Inl e \<Rightarrow> Inl e
              | Inr results \<Rightarrow> Inr (result # results)))
      else if query_type = ''Update'' then
        (case update_with_cache array arg1 arg2 c of
           Inl e \<Rightarrow> Inl e
         | Inr (array', c') \<Rightarrow> run_with_cache array' c' qs)
      else run_with_cache array c qs)"

text \<open>The arguments a query must have on an array of length \<open>n\<close>.\<close>

fun valid_query :: "int \<Rightarrow> query \<Rightarrow> bool" where
  "valid_query n (query_type, arg1, arg2) =
     (if query_type = ''Range'' then 0 \<le> arg1 \<and> arg1 \<le> arg2 \<and> arg2 < n
      else if query_type = ''Update'' then 0 \<le> arg1 \<and> arg1 < n
      else True)"

section \<open>Recency\<close>

text \<open>
  The keys a sequence of calls touches, in call order, as the specification counts them:
  every \<^verbatim>\<open>put\<close> touches its key, a \<^verbatim>\<open>get\<close> touches its key when the key is in the cache
  at that moment (a hit), and a \<^verbatim>\<open>get\<close> that misses touches nothing.
\<close>

fun touched_keys :: "LRUCache \<Rightarrow> call list \<Rightarrow> key list" where
  "touched_keys c [] = []"
| "touched_keys c (Get k # cs) =
     (case LRUCache_get c k of
        Inl e \<Rightarrow> []
      | Inr (_, c') \<Rightarrow> (if od_contains (cache c) k then [k] else []) @ touched_keys c' cs)"
| "touched_keys c (Put k v # cs) =
     (case LRUCache_put c k v of
        Inl e \<Rightarrow> []
      | Inr c' \<Rightarrow> k # touched_keys c' cs)"

text \<open>
  The last \<open>n\<close> distinct elements of a list, each at the place of its last occurrence:
  the \<open>n\<close> most recently touched keys, the least recent of them first.
\<close>

definition last_distinct :: "nat \<Rightarrow> 'a list \<Rightarrow> 'a list" where
  "last_distinct n ks = (let ds = remdups ks in drop (length ds - n) ds)"

section \<open>The workload generator\<close>

text \<open>
  The generator draws from Python's global random generator. Here the generator is an
  explicit argument: an infinite sequence of raw draws, of which each call consumes the
  first. \<^verbatim>\<open>random.randint(a, b)\<close> returns an integer \<open>N\<close> with \<open>a \<le> N \<le> b\<close>, both ends
  included, and raises ValueError when \<open>b < a\<close>; the raw draw is reduced into that range, so
  every value of the range is the result for some source.
\<close>

type_synonym random_source = "nat \<Rightarrow> nat"

definition constant_draws :: "nat \<Rightarrow> random_source" where
  "constant_draws x = (\<lambda>i. x)"

definition randint :: "int \<Rightarrow> int \<Rightarrow> random_source \<Rightarrow> error + (int \<times> random_source)" where
  "randint a b rs =
     (if b < a then Inl ValueError
      else Inr (a + int (rs 0 mod nat (b - a + 1)), \<lambda>i. rs (Suc i)))"

text \<open>
  The pool of hot ranges, the first statement of \<^verbatim>\<open>make_queries\<close>: \<^verbatim>\<open>hot_pool\<close> pairs
  \<^verbatim>\<open>(randint(0, n // 2), randint(n // 2, n - 1))\<close>, the left end drawn before the right one.
  The queries generated afterwards take their hot ranges from this list unchanged.
\<close>

fun make_hot :: "int \<Rightarrow> nat \<Rightarrow> random_source \<Rightarrow> error + (key list \<times> random_source)" where
  "make_hot n 0 rs = Inr ([], rs)"
| "make_hot n (Suc m) rs =
     (case randint 0 (n div 2) rs of
        Inl e \<Rightarrow> Inl e
      | Inr (left, rs1) \<Rightarrow>
          (case randint (n div 2) (n - 1) rs1 of
             Inl e \<Rightarrow> Inl e
           | Inr (right, rs2) \<Rightarrow>
               (case make_hot n m rs2 of
                  Inl e \<Rightarrow> Inl e
                | Inr (hot, rs3) \<Rightarrow> Inr ((left, right) # hot, rs3))))"

definition make_queries_hot :: "int \<Rightarrow> int \<Rightarrow> random_source \<Rightarrow> error + key list" where
  "make_queries_hot n hot_pool rs =
     (case make_hot n (nat hot_pool) rs of Inl e \<Rightarrow> Inl e | Inr (hot, _) \<Rightarrow> Inr hot)"

text \<open>The bounds of a hot range on an array of length \<open>n\<close>, both ends of each interval included.\<close>

definition hot_range_ok :: "int \<Rightarrow> key \<Rightarrow> bool" where
  "hot_range_ok n k =
     (0 \<le> fst k \<and> fst k \<le> n div 2 \<and> n div 2 \<le> snd k \<and> snd k \<le> n - 1 \<and> fst k \<le> snd k)"

section \<open>Auxiliary notions for the proofs\<close>

text \<open>
  The dictionary \<^verbatim>\<open>put\<close> builds before it checks the capacity: the key moved to the end
  when present, then assigned.
\<close>

definition put_keyed :: "(key \<times> int) list \<Rightarrow> key \<Rightarrow> int \<Rightarrow> (key \<times> int) list" where
  "put_keyed d k v =
     od_setitem (case map_of d k of None \<Rightarrow> d
                 | Some w \<Rightarrow> filter (\<lambda>e. fst e \<noteq> k) d @ [(k, w)]) k v"

text \<open>
  A cache is consistent with an array when each entry has a key within the array and the
  sum of the key's range as its value.
\<close>

definition entry_ok :: "int list \<Rightarrow> key \<times> int \<Rightarrow> bool" where
  "entry_ok array e =
     (0 \<le> fst (fst e) \<and> fst (fst e) \<le> snd (fst e) \<and> snd (fst e) < int (length array)
      \<and> snd e = range_sum_no_cache array (fst (fst e)) (snd (fst e)))"

definition consistent :: "int list \<Rightarrow> LRUCache \<Rightarrow> bool" where
  "consistent array c = list_all (entry_ok array) (cache c)"

text \<open>The eviction step of \<^verbatim>\<open>put\<close>: the oldest entry goes when the capacity is exceeded.\<close>

definition trim :: "int \<Rightarrow> (key \<times> int) list \<Rightarrow> (key \<times> int) list" where
  "trim cap d = (if int (length d) > cap then tl d else d)"

text \<open>The eviction step on the list of keys.\<close>

definition trim_keys :: "nat \<Rightarrow> 'a list \<Rightarrow> 'a list" where
  "trim_keys n ks = (if n < length ks then tl ks else ks)"

section \<open>The operations never raise on their guarded paths\<close>

lemma od_contains_map_of: "od_contains d k \<longleftrightarrow> map_of d k \<noteq> None"
  by (simp add: od_contains_def map_of_eq_None_iff)

lemma map_of_filter_key: "map_of (filter (\<lambda>e. fst e \<noteq> k) d) k = None"
  by (induction d) auto

lemma map_of_filter_other:
  "k' \<noteq> k \<Longrightarrow> map_of (filter (\<lambda>e. fst e \<noteq> k) d) k' = map_of d k'"
  by (induction d) auto

lemma map_of_moved:
  "map_of (filter (\<lambda>e. fst e \<noteq> k) d @ [(k, v)]) k = Some v"
  by (simp add: map_add_def map_of_filter_key)

lemma LRUCache_get_eq:
  "LRUCache_get c k =
     (case map_of (cache c) k of
        None \<Rightarrow> Inr (- 1, c)
      | Some v \<Rightarrow> Inr (v, c\<lparr>cache := filter (\<lambda>e. fst e \<noteq> k) (cache c) @ [(k, v)]\<rparr>))"
  by (auto simp: LRUCache_get_def od_contains_map_of od_move_to_end_def od_getitem_def
        map_of_moved map_of_filter_key split: option.splits)

lemma od_setitem_not_Nil: "od_setitem d k v \<noteq> []"
  by (cases d) auto

lemma LRUCache_put_eq:
  "LRUCache_put c k v =
     Inr (c\<lparr>cache := (if int (length (put_keyed (cache c) k v)) > capacity c
                       then tl (put_keyed (cache c) k v)
                       else put_keyed (cache c) k v)\<rparr>)"
proof -
  have ne: "put_keyed (cache c) k v \<noteq> []"
    by (simp add: put_keyed_def od_setitem_not_Nil)
  then obtain e r where "put_keyed (cache c) k v = e # r"
    by (cases "put_keyed (cache c) k v") auto
  then show ?thesis
    by (auto simp: LRUCache_put_def put_keyed_def od_contains_map_of od_move_to_end_def
          od_popitem_first_def Let_def split: option.splits)
qed

section \<open>Size of the cache\<close>

lemma length_od_setitem:
  "length (od_setitem d k v) = (if k \<in> fst ` set d then length d else Suc (length d))"
  by (induction d) auto

lemma length_filter_key:
  "map_of d k = Some w \<Longrightarrow> length (filter (\<lambda>e. fst e \<noteq> k) d) < length d"
  by (rule length_filter_less [of "(k, w)"]) (auto dest: map_of_SomeD)

lemma length_put_keyed: "length (put_keyed d k v) \<le> Suc (length d)"
proof (cases "map_of d k")
  case None
  then show ?thesis by (simp add: put_keyed_def length_od_setitem)
next
  case (Some w)
  then show ?thesis
    using length_filter_key [OF Some] by (simp add: put_keyed_def length_od_setitem)
qed

lemma LRUCache_put_size:
  assumes "int (length (cache c)) \<le> capacity c"
  shows "\<exists>c'. LRUCache_put c k v = Inr c' \<and> capacity c' = capacity c
           \<and> int (length (cache c')) \<le> capacity c'"
  using assms length_put_keyed [of "cache c" k v]
  by (auto simp: LRUCache_put_eq)

lemma LRUCache_get_size:
  assumes "int (length (cache c)) \<le> capacity c"
  shows "\<exists>r c'. LRUCache_get c k = Inr (r, c') \<and> capacity c' = capacity c
           \<and> int (length (cache c')) \<le> capacity c'"
proof (cases "map_of (cache c) k")
  case None
  then show ?thesis using assms by (simp add: LRUCache_get_eq)
next
  case (Some w)
  then show ?thesis
    using assms length_filter_key [OF Some] by (simp add: LRUCache_get_eq)
qed

lemma run_calls_size:
  "int (length (cache c)) \<le> capacity c \<Longrightarrow>
   \<exists>c'. run_calls c calls = Inr c' \<and> capacity c' = capacity c
      \<and> int (length (cache c')) \<le> capacity c'"
proof (induction calls arbitrary: c)
  case Nil
  then show ?case by simp
next
  case (Cons a calls)
  show ?case
  proof (cases a)
    case (Get k)
    from LRUCache_get_size [OF Cons.prems, of k] obtain r c1 where
      g: "LRUCache_get c k = Inr (r, c1)" "capacity c1 = capacity c"
         "int (length (cache c1)) \<le> capacity c1" by blast
    from Cons.IH [OF g(3)] g Get show ?thesis by auto
  next
    case (Put k v)
    from LRUCache_put_size [OF Cons.prems, of k v] obtain c1 where
      g: "LRUCache_put c k v = Inr c1" "capacity c1 = capacity c"
         "int (length (cache c1)) \<le> capacity c1" by blast
    from Cons.IH [OF g(3)] g Put show ?thesis by auto
  qed
qed

text \<open>
  Claim C3. A cache constructed with a capacity \<open>K > 0\<close> runs every finite sequence of
  \<^verbatim>\<open>put\<close> and \<^verbatim>\<open>get\<close> calls without an exception, keeps its capacity, and holds at most
  \<open>K\<close> entries afterwards. The sequence is arbitrary, so the bound holds after each call
  of a longer sequence as well.
\<close>

theorem capacity_invariant:
  assumes "0 < K" and "LRUCache_init K = Inr c0"
  shows "\<exists>c. run_calls c0 calls = Inr c \<and> capacity c = K \<and> int (length (cache c)) \<le> K"
proof -
  from assms have "int (length (cache c0)) \<le> capacity c0" "capacity c0 = K"
    by (auto simp: LRUCache_init_def)
  with run_calls_size [of c0 calls] show ?thesis by auto
qed

theorem capacity_invariant_witness:
  "(0::int) < 2 \<and> LRUCache_init 2 = Inr \<lparr>cache = [], capacity = 2\<rparr>
   \<and> (\<exists>c. run_calls \<lparr>cache = [], capacity = 2\<rparr>
             [Put (0, 2) 10, Put (1, 3) 20, Put (2, 4) 30, Get (1, 3), Put (5, 6) 40] = Inr c
          \<and> capacity c = 2 \<and> int (length (cache c)) \<le> 2)"
  using capacity_invariant [of 2 "\<lparr>cache = [], capacity = 2\<rparr>"
      "[Put (0, 2) 10, Put (1, 3) 20, Put (2, 4) 30, Get (1, 3), Put (5, 6) 40]"]
  by (simp add: LRUCache_init_def)

section \<open>Construction\<close>





section \<open>Repeated lookups\<close>

lemma filter_key_absent:
  "k \<notin> fst ` set d \<Longrightarrow> filter (\<lambda>e. fst e \<noteq> k) d = d"
  by (induction d) auto

lemma length_filter_key_distinct:
  "distinct (map fst d) \<Longrightarrow> map_of d k = Some w \<Longrightarrow>
   Suc (length (filter (\<lambda>e. fst e \<noteq> k) d)) = length d"
proof (induction d)
  case Nil
  then show ?case by simp
next
  case (Cons e d)
  then show ?case
    by (cases "fst e = k") (auto simp: filter_key_absent)
qed

lemma LRUCache_get_hit_again:
  assumes "LRUCache_get c k = Inr (v, c')" and "map_of (cache c) k \<noteq> None"
  shows "LRUCache_get c' k = Inr (v, c')"
  using assms
  by (auto simp: LRUCache_get_eq map_add_def map_of_filter_key split: option.splits)

lemma get_repeatedly_fixed:
  "LRUCache_get c k = Inr (v, c) \<Longrightarrow> get_repeatedly n c k = Inr (replicate n v, c)"
  by (induction n) auto

text \<open>
  Claim C10. On a cache whose keys are distinct, \<open>n\<close> consecutive calls of \<^verbatim>\<open>get\<close> on a
  key all return one value, the stored value of the key or \<open>-1\<close> when it has none, and
  the cache has as many entries afterwards as before. Since \<open>n\<close> is arbitrary, the size is
  the same after each of the calls.
\<close>

theorem get_idempotent:
  assumes "wf_cache c"
  shows "\<exists>c'. get_repeatedly n c k =
                Inr (replicate n (case map_of (cache c) k of None \<Rightarrow> - 1 | Some w \<Rightarrow> w), c')
           \<and> length (cache c') = length (cache c)"
proof (cases "map_of (cache c) k")
  case None
  then have "LRUCache_get c k = Inr (- 1, c)" by (simp add: LRUCache_get_eq)
  then show ?thesis using None get_repeatedly_fixed by fastforce
next
  case (Some w)
  define c1 where "c1 = c\<lparr>cache := filter (\<lambda>e. fst e \<noteq> k) (cache c) @ [(k, w)]\<rparr>"
  have g: "LRUCache_get c k = Inr (w, c1)"
    using Some by (simp add: LRUCache_get_eq c1_def)
  then have again: "LRUCache_get c1 k = Inr (w, c1)"
    using Some by (intro LRUCache_get_hit_again [of c]) auto
  have len: "length (cache c1) = length (cache c)"
    using length_filter_key_distinct [OF _ Some] assms by (simp add: c1_def wf_cache_def)
  show ?thesis
  proof (cases n)
    case 0
    then show ?thesis by simp
  next
    case (Suc m)
    then have "get_repeatedly n c k = Inr (replicate n w, c1)"
      using g get_repeatedly_fixed [OF again, of m] by simp
    with len Some show ?thesis by simp
  qed
qed

theorem get_idempotent_witness:
  "wf_cache \<lparr>cache = [((1, 3), 20), ((2, 4), 30)], capacity = 2\<rparr>
   \<and> (\<exists>c'. get_repeatedly 3 \<lparr>cache = [((1, 3), 20), ((2, 4), 30)], capacity = 2\<rparr> (1, 3)
              = Inr (replicate 3 20, c')
          \<and> length (cache c') = 2)"
  using get_idempotent [of "\<lparr>cache = [((1, 3), 20), ((2, 4), 30)], capacity = 2\<rparr>" 3 "(1, 3)"]
  by (auto simp: wf_cache_def)

section \<open>Invalidation\<close>

lemma invalidate_eq:
  "invalidate ks c = Inr (c\<lparr>cache := filter (\<lambda>e. fst e \<notin> set ks) (cache c)\<rparr>)"
proof (induction ks arbitrary: c)
  case Nil
  show ?case by simp
next
  case (Cons k ks)
  show ?case
  proof (cases "od_contains (cache c) k")
    case True
    then show ?thesis
      by (simp add: Cons.IH od_delitem_def conj_commute)
  next
    case False
    then have "filter (\<lambda>e. fst e \<notin> set (k # ks)) (cache c) = filter (\<lambda>e. fst e \<notin> set ks) (cache c)"
      by (intro filter_cong) (auto simp: od_contains_def)
    with False show ?thesis by (simp add: Cons.IH)
  qed
qed

lemma update_with_cache_eq:
  "update_with_cache array index val c =
     (case list_setitem array index val of
        Inl e \<Rightarrow> Inl e
      | Inr array' \<Rightarrow>
          Inr (array', c\<lparr>cache := filter (\<lambda>e. \<not> (fst (fst e) \<le> index \<and> index \<le> snd (fst e))) (cache c)\<rparr>))"
proof -
  have "filter (\<lambda>e. fst e \<notin> set (filter (\<lambda>(left, right). left \<le> index \<and> index \<le> right)
                                      (map fst (cache c)))) (cache c)
        = filter (\<lambda>e. \<not> (fst (fst e) \<le> index \<and> index \<le> snd (fst e))) (cache c)"
    by (intro filter_cong) (auto simp: case_prod_beta)
  then show ?thesis
    by (simp add: update_with_cache_def invalidate_eq LRUCache_get_all_keys_def split: sum.splits)
qed

lemma list_setitem_valid:
  "0 \<le> index \<Longrightarrow> index < int (length array) \<Longrightarrow>
   list_setitem array index val = Inr (array[nat index := val])"
  by (simp add: list_setitem_def)

lemma map_of_filter_dropped:
  "\<not> P k \<Longrightarrow> map_of (filter (\<lambda>e. P (fst e)) d) k = None"
  by (induction d) auto

lemma map_of_filter_kept:
  "P k \<Longrightarrow> map_of (filter (\<lambda>e. P (fst e)) d) k = map_of d k"
  by (induction d) auto

lemma range_sum_with_cache_miss:
  assumes "map_of (cache c) (left, right) = None"
  shows "\<exists>c'. range_sum_with_cache array left right c = Inr (range_sum_no_cache array left right, c')"
  using assms
  by (simp add: range_sum_with_cache_def LRUCache_get_eq LRUCache_put_eq range_sum_no_cache_def
        Let_def)

text \<open>
  Claim C2. An update at a valid index returns, and the cache it leaves has no key
  \<open>(l, r)\<close> with \<open>l \<le> index \<le> r\<close>: \<^verbatim>\<open>get\<close> on such a key reports \<open>-1\<close> and leaves the
  cache as it is, and the next \<^verbatim>\<open>range_sum_with_cache\<close> on it returns the sum computed from
  the updated array.
\<close>

theorem invalidation_sound:
  assumes "0 \<le> index" and "index < int (length array)"
  shows "\<exists>c'. update_with_cache array index val c = Inr (array[nat index := val], c')
           \<and> (\<forall>l r. l \<le> index \<and> index \<le> r \<longrightarrow>
                  (l, r) \<notin> set (LRUCache_get_all_keys c')
                  \<and> LRUCache_get c' (l, r) = Inr (- 1, c')
                  \<and> (\<exists>c''. range_sum_with_cache (array[nat index := val]) l r c'
                               = Inr (range_sum_no_cache (array[nat index := val]) l r, c'')))"
proof -
  define c' where
    "c' = c\<lparr>cache := filter (\<lambda>e. \<not> (fst (fst e) \<le> index \<and> index \<le> snd (fst e))) (cache c)\<rparr>"
  have upd: "update_with_cache array index val c = Inr (array[nat index := val], c')"
    using assms by (simp add: update_with_cache_eq list_setitem_valid c'_def)
  have gone: "map_of (cache c') (l, r) = None" if "l \<le> index \<and> index \<le> r" for l r
    using that map_of_filter_dropped [of "\<lambda>k. \<not> (fst k \<le> index \<and> index \<le> snd k)" "(l, r)" "cache c"]
    by (simp add: c'_def)
  have "(l, r) \<notin> set (LRUCache_get_all_keys c')
        \<and> LRUCache_get c' (l, r) = Inr (- 1, c')
        \<and> (\<exists>c''. range_sum_with_cache (array[nat index := val]) l r c'
                     = Inr (range_sum_no_cache (array[nat index := val]) l r, c''))"
    if "l \<le> index \<and> index \<le> r" for l r
  proof (intro conjI)
    show "(l, r) \<notin> set (LRUCache_get_all_keys c')"
      using gone [OF that] by (simp add: LRUCache_get_all_keys_def map_of_eq_None_iff)
    show "LRUCache_get c' (l, r) = Inr (- 1, c')"
      by (simp add: LRUCache_get_eq gone [OF that])
    show "\<exists>c''. range_sum_with_cache (array[nat index := val]) l r c'
                  = Inr (range_sum_no_cache (array[nat index := val]) l r, c'')"
      by (rule range_sum_with_cache_miss [OF gone [OF that]])
  qed
  with upd show ?thesis by blast
qed

text \<open>
  Claim C5. An update at a valid index keeps every cached key whose range does not contain
  the index, with the value it had.
\<close>

theorem invalidation_precise:
  assumes "0 \<le> index" and "index < int (length array)"
    and "index < l \<or> r < index"
    and "map_of (cache c) (l, r) = Some v"
  shows "\<exists>c'. update_with_cache array index val c = Inr (array[nat index := val], c')
           \<and> map_of (cache c') (l, r) = Some v"
proof -
  have "map_of (filter (\<lambda>e. \<not> (fst (fst e) \<le> index \<and> index \<le> snd (fst e))) (cache c)) (l, r)
        = map_of (cache c) (l, r)"
    using assms(3) map_of_filter_kept [of "\<lambda>k. \<not> (fst k \<le> index \<and> index \<le> snd k)" "(l, r)" "cache c"]
    by auto
  then show ?thesis
    using assms by (simp add: update_with_cache_eq list_setitem_valid)
qed



theorem invalidation_sound_witness:
  "(0::int) \<le> 2 \<and> 2 < int (length [1, 2, 3, 4, 5 :: int])
   \<and> (\<exists>c'. update_with_cache [1, 2, 3, 4, 5] 2 100 \<lparr>cache = [((1, 3), 9)], capacity = 2\<rparr>
               = Inr ([1, 2, 100, 4, 5], c')
          \<and> (1, 3) \<notin> set (LRUCache_get_all_keys c')
          \<and> LRUCache_get c' (1, 3) = Inr (- 1, c')
          \<and> (\<exists>c''. range_sum_with_cache [1, 2, 100, 4, 5] 1 3 c' = Inr (106, c'')))"
proof -
  have upd: "[1, 2, 3, 4, 5 :: int][nat 2 := 100] = [1, 2, 100, 4, 5]"
    by (simp add: nat_numeral list_update_code)
  have s: "range_sum_no_cache [1, 2, 100, 4, 5] 1 3 = 106"
    by (simp add: range_sum_no_cache_def py_slice_def slice_bound_def)
  from invalidation_sound [of 2 "[1, 2, 3, 4, 5]" 100 "\<lparr>cache = [((1, 3), 9)], capacity = 2\<rparr>"]
  obtain c' where
    u: "update_with_cache [1, 2, 3, 4, 5] 2 100 \<lparr>cache = [((1, 3), 9)], capacity = 2\<rparr>
          = Inr ([1, 2, 100, 4, 5], c')"
    and a: "\<forall>l r. l \<le> 2 \<and> 2 \<le> r \<longrightarrow>
                  (l, r) \<notin> set (LRUCache_get_all_keys c')
                  \<and> LRUCache_get c' (l, r) = Inr (- 1, c')
                  \<and> (\<exists>c''. range_sum_with_cache [1, 2, 100, 4, 5] l r c'
                               = Inr (range_sum_no_cache [1, 2, 100, 4, 5] l r, c''))"
    unfolding upd by auto
  from a have "(1, 3) \<notin> set (LRUCache_get_all_keys c')
               \<and> LRUCache_get c' (1, 3) = Inr (- 1, c')
               \<and> (\<exists>c''. range_sum_with_cache [1, 2, 100, 4, 5] 1 3 c'
                            = Inr (range_sum_no_cache [1, 2, 100, 4, 5] 1 3, c''))"
    by simp
  with u s show ?thesis by auto
qed

theorem invalidation_precise_witness:
  "(0::int) \<le> 2 \<and> 2 < int (length [1, 2, 3, 4, 5 :: int]) \<and> ((2::int) < 3 \<or> (4::int) < 2)
   \<and> map_of (cache \<lparr>cache = [((1, 3), 9), ((3, 4), 9)], capacity = 2\<rparr>) (3, 4) = Some 9
   \<and> (\<exists>c'. update_with_cache [1, 2, 3, 4, 5] 2 100
               \<lparr>cache = [((1, 3), 9), ((3, 4), 9)], capacity = 2\<rparr>
               = Inr ([1, 2, 100, 4, 5], c')
          \<and> map_of (cache c') (3, 4) = Some 9)"
  using invalidation_precise [of 2 "[1, 2, 3, 4, 5]" 3 4
      "\<lparr>cache = [((1, 3), 9), ((3, 4), 9)], capacity = 2\<rparr>" 9 100]
  by (simp add: nat_numeral list_update_code)

section \<open>Arguments out of range\<close>







section \<open>The value that stands for absence\<close>

lemma od_setitem_absent:
  "k \<notin> fst ` set d \<Longrightarrow> od_setitem d k v = d @ [(k, v)]"
  by (induction d) auto

lemma od_setitem_last:
  "k \<notin> fst ` set d \<Longrightarrow> od_setitem (d @ [(k, w)]) k v = d @ [(k, v)]"
  by (induction d) auto

lemma put_keyed_eq: "put_keyed d k v = filter (\<lambda>e. fst e \<noteq> k) d @ [(k, v)]"
proof (cases "map_of d k")
  case None
  then have "k \<notin> fst ` set d" by (simp add: map_of_eq_None_iff)
  with None show ?thesis
    by (simp add: put_keyed_def od_setitem_absent filter_key_absent)
next
  case (Some w)
  have "k \<notin> fst ` set (filter (\<lambda>e. fst e \<noteq> k) d)" by auto
  with Some show ?thesis
    by (simp add: put_keyed_def od_setitem_last)
qed

lemma map_of_tl_snoc:
  assumes "k \<notin> fst ` set xs" and "2 \<le> length (xs @ [(k, v)])"
  shows "map_of (tl (xs @ [(k, v)])) k = Some v"
proof (cases xs)
  case Nil
  with assms show ?thesis by simp
next
  case (Cons e ys)
  with assms have "map_of ys k = None" by (simp add: map_of_eq_None_iff)
  with Cons show ?thesis by (simp add: map_add_def)
qed

lemma LRUCache_put_stores:
  assumes "1 \<le> capacity c"
  shows "\<exists>c'. LRUCache_put c k v = Inr c' \<and> capacity c' = capacity c
           \<and> map_of (cache c') k = Some v"
proof -
  have absent: "k \<notin> fst ` set (filter (\<lambda>e. fst e \<noteq> k) (cache c))" by auto
  show ?thesis
  proof (cases "int (length (put_keyed (cache c) k v)) > capacity c")
    case True
    with assms have "2 \<le> length (filter (\<lambda>e. fst e \<noteq> k) (cache c) @ [(k, v)])"
      by (simp add: put_keyed_eq)
    from map_of_tl_snoc [OF absent this] True show ?thesis
      by (simp add: LRUCache_put_eq put_keyed_eq)
  next
    case False
    have "map_of (filter (\<lambda>e. fst e \<noteq> k) (cache c) @ [(k, v)]) k = Some v"
      by (rule map_of_moved)
    with False show ?thesis
      by (simp add: LRUCache_put_eq put_keyed_eq)
  qed
qed

lemma range_sum_with_cache_recomputes:
  assumes "map_of (cache c) (l, r) = None \<or> map_of (cache c) (l, r) = Some (- 1)"
  shows "\<exists>c'. range_sum_with_cache array l r c = Inr (range_sum_no_cache array l r, c')
           \<and> (1 \<le> capacity c \<longrightarrow> map_of (cache c') (l, r) = Some (range_sum_no_cache array l r))"
proof -
  obtain cg where g: "LRUCache_get c (l, r) = Inr (- 1, cg)" and cap: "capacity cg = capacity c"
    using assms by (auto simp: LRUCache_get_eq)
  obtain c' where p: "LRUCache_put cg (l, r) (range_sum_no_cache array l r) = Inr c'"
    by (simp add: LRUCache_put_eq)
  have "map_of (cache c') (l, r) = Some (range_sum_no_cache array l r)" if "1 \<le> capacity c"
    using LRUCache_put_stores [of cg "(l, r)" "range_sum_no_cache array l r"] that cap p
    by auto
  moreover have "range_sum_with_cache array l r c = Inr (range_sum_no_cache array l r, c')"
    using g p by (simp add: range_sum_with_cache_def range_sum_no_cache_def Let_def)
  ultimately show ?thesis by blast
qed

lemma range_sum_with_cache_minus_one:
  assumes "range_sum_with_cache array l r c = Inr (- 1, c1)"
  shows "map_of (cache c) (l, r) = None \<or> map_of (cache c) (l, r) = Some (- 1)"
proof (cases "map_of (cache c) (l, r)")
  case None
  then show ?thesis by simp
next
  case (Some w)
  show ?thesis
  proof (cases "w = - 1")
    case True
    with Some show ?thesis by simp
  next
    case False
    with Some assms show ?thesis
      by (simp add: range_sum_with_cache_def LRUCache_get_eq Let_def)
  qed
qed

text \<open>
  Claim C8. \<^verbatim>\<open>get\<close> answers \<open>-1\<close> for a key that is absent, and also for a key stored
  with the value \<open>-1\<close>. So a range query that returns \<open>-1\<close> on a cache of capacity at
  least 1 has computed that sum from the array and cached it, and still the next query on
  the same range goes through the miss branch: whatever array it is given, it returns the
  sum computed from that array and stores it again.
\<close>

theorem get_sentinel_collision:
  "(map_of (cache c) k = None \<longrightarrow> LRUCache_get c k = Inr (- 1, c))
   \<and> (\<exists>c0 c0'. map_of (cache c0) k = Some (- 1) \<and> LRUCache_get c0 k = Inr (- 1, c0'))
   \<and> (1 \<le> capacity c \<and> range_sum_with_cache array l r c = Inr (- 1, c1) \<longrightarrow>
        range_sum_no_cache array l r = - 1
        \<and> map_of (cache c1) (l, r) = Some (- 1)
        \<and> (\<forall>array2. \<exists>c2. range_sum_with_cache array2 l r c1
                              = Inr (range_sum_no_cache array2 l r, c2)
                         \<and> map_of (cache c2) (l, r) = Some (range_sum_no_cache array2 l r)))"
proof (intro conjI impI)
  assume "map_of (cache c) k = None"
  then show "LRUCache_get c k = Inr (- 1, c)" by (simp add: LRUCache_get_eq)
next
  have "map_of (cache \<lparr>cache = [(k, - 1)], capacity = 1\<rparr>) k = Some (- 1)" by simp
  moreover have "LRUCache_get \<lparr>cache = [(k, - 1)], capacity = 1\<rparr> k
                 = Inr (- 1, \<lparr>cache = [(k, - 1)], capacity = 1\<rparr>)"
    by (simp add: LRUCache_get_eq)
  ultimately show "\<exists>c0 c0'. map_of (cache c0) k = Some (- 1) \<and> LRUCache_get c0 k = Inr (- 1, c0')"
    by blast
next
  assume a: "1 \<le> capacity c \<and> range_sum_with_cache array l r c = Inr (- 1, c1)"
  then have pre: "map_of (cache c) (l, r) = None \<or> map_of (cache c) (l, r) = Some (- 1)"
    using range_sum_with_cache_minus_one by blast
  from range_sum_with_cache_recomputes [OF pre, of array] a
  show s: "range_sum_no_cache array l r = - 1" by auto
  from range_sum_with_cache_recomputes [OF pre, of array] a s
  show m: "map_of (cache c1) (l, r) = Some (- 1)" by auto
  have cap1: "1 \<le> capacity c1"
    using a by (auto simp: range_sum_with_cache_def LRUCache_get_eq LRUCache_put_eq Let_def
        split: option.splits if_splits)
  show "\<forall>array2. \<exists>c2. range_sum_with_cache array2 l r c1
                              = Inr (range_sum_no_cache array2 l r, c2)
                         \<and> map_of (cache c2) (l, r) = Some (range_sum_no_cache array2 l r)"
    using range_sum_with_cache_recomputes [of c1 l r] m cap1 by auto
qed


theorem get_sentinel_collision_witness:
  "LRUCache_get \<lparr>cache = [], capacity = 2\<rparr> (0, 1) = Inr (- 1, \<lparr>cache = [], capacity = 2\<rparr>)
   \<and> range_sum_with_cache [2, - 3] 0 1 \<lparr>cache = [], capacity = 2\<rparr>
       = Inr (- 1, \<lparr>cache = [((0, 1), - 1)], capacity = 2\<rparr>)
   \<and> map_of (cache \<lparr>cache = [((0, 1), - 1)], capacity = 2\<rparr>) (0, 1) = Some (- 1)
   \<and> (\<exists>c2. range_sum_with_cache [2, 5] 0 1 \<lparr>cache = [((0, 1), - 1)], capacity = 2\<rparr>
              = Inr (7, c2))"
proof -
  have q: "range_sum_with_cache [2, - 3] 0 1 \<lparr>cache = [], capacity = 2\<rparr>
           = Inr (- 1, \<lparr>cache = [((0, 1), - 1)], capacity = 2\<rparr>)"
    by (simp add: range_sum_with_cache_def LRUCache_get_eq LRUCache_put_eq put_keyed_def
        py_slice_def slice_bound_def Let_def)
  have s: "range_sum_no_cache [2, 5] 0 1 = 7"
    by (simp add: range_sum_no_cache_def py_slice_def slice_bound_def)
  note t = get_sentinel_collision [of "\<lparr>cache = [], capacity = 2\<rparr>" "(0, 1)" "[2, - 3]" 0 1
      "\<lparr>cache = [((0, 1), - 1)], capacity = 2\<rparr>"]
  from t have g: "LRUCache_get \<lparr>cache = [], capacity = 2\<rparr> (0, 1)
                  = Inr (- 1, \<lparr>cache = [], capacity = 2\<rparr>)"
    by simp
  from t q have
    "\<forall>array2. \<exists>c2. range_sum_with_cache array2 0 1 \<lparr>cache = [((0, 1), - 1)], capacity = 2\<rparr>
                       = Inr (range_sum_no_cache array2 0 1, c2)
                  \<and> map_of (cache c2) (0, 1) = Some (range_sum_no_cache array2 0 1)"
    by simp
  then have "\<exists>c2. range_sum_with_cache [2, 5] 0 1 \<lparr>cache = [((0, 1), - 1)], capacity = 2\<rparr>
                    = Inr (range_sum_no_cache [2, 5] 0 1, c2)"
    by blast
  with s g q show ?thesis by simp
qed

section \<open>The cached service against the baseline\<close>

lemma py_slice_valid:
  "0 \<le> l \<Longrightarrow> l \<le> r \<Longrightarrow> r < int (length xs) \<Longrightarrow>
   py_slice xs l (r + 1) = drop (nat l) (take (nat (r + 1)) xs)"
  by (simp add: py_slice_def slice_bound_def Let_def)

lemma range_sum_unchanged:
  assumes "0 \<le> l" "l \<le> r" "r < int (length xs)" "0 \<le> i" "i < l \<or> r < i"
  shows "range_sum_no_cache (xs[nat i := v]) l r = range_sum_no_cache xs l r"
proof -
  have "drop (nat l) (take (nat (r + 1)) (xs[nat i := v])) = drop (nat l) (take (nat (r + 1)) xs)"
  proof (cases "i < l")
    case True
    with assms have "nat i < nat l" by simp
    then show ?thesis by (simp add: take_update_swap drop_update_cancel)
  next
    case False
    with assms have "nat (r + 1) \<le> nat i" by simp
    then show ?thesis by (simp add: take_update_cancel)
  qed
  with assms show ?thesis
    by (simp add: range_sum_no_cache_def py_slice_valid)
qed

lemma range_sum_with_cache_eq:
  "range_sum_with_cache array l r c =
     (case map_of (cache c) (l, r) of
        None \<Rightarrow>
          Inr (range_sum_no_cache array l r,
               c\<lparr>cache := trim (capacity c) (filter (\<lambda>e. fst e \<noteq> (l, r)) (cache c)
                              @ [((l, r), range_sum_no_cache array l r)])\<rparr>)
      | Some w \<Rightarrow>
          if w \<noteq> - 1
          then Inr (w, c\<lparr>cache := filter (\<lambda>e. fst e \<noteq> (l, r)) (cache c) @ [((l, r), w)]\<rparr>)
          else Inr (range_sum_no_cache array l r,
               c\<lparr>cache := trim (capacity c) (filter (\<lambda>e. fst e \<noteq> (l, r)) (cache c)
                              @ [((l, r), range_sum_no_cache array l r)])\<rparr>))"
proof (cases "map_of (cache c) (l, r)")
  case None
  then show ?thesis
    by (simp add: range_sum_with_cache_def LRUCache_get_eq LRUCache_put_eq put_keyed_eq
        range_sum_no_cache_def trim_def Let_def)
next
  case (Some w)
  then show ?thesis
    by (simp add: range_sum_with_cache_def LRUCache_get_eq LRUCache_put_eq put_keyed_eq
        range_sum_no_cache_def trim_def Let_def)
qed

lemma list_all_trim: "list_all P d \<Longrightarrow> list_all P (trim cap d)"
  by (cases d) (auto simp: trim_def)

lemma range_sum_with_cache_consistent:
  assumes "consistent array c" and "0 \<le> l" "l \<le> r" "r < int (length array)"
  shows "\<exists>c'. range_sum_with_cache array l r c = Inr (range_sum_no_cache array l r, c')
           \<and> consistent array c'"
proof -
  have new: "entry_ok array ((l, r), range_sum_no_cache array l r)"
    using assms by (simp add: entry_ok_def)
  have old: "list_all (entry_ok array) (filter (\<lambda>e. fst e \<noteq> (l, r)) (cache c))"
    using assms(1) by (simp add: consistent_def list_all_iff)
  have fresh: "consistent array
      (c\<lparr>cache := trim (capacity c) (filter (\<lambda>e. fst e \<noteq> (l, r)) (cache c)
                              @ [((l, r), range_sum_no_cache array l r)])\<rparr>)"
    using new old by (simp add: consistent_def list_all_trim)
  show ?thesis
  proof (cases "map_of (cache c) (l, r)")
    case None
    with fresh show ?thesis by (simp add: range_sum_with_cache_eq)
  next
    case (Some w)
    then have "((l, r), w) \<in> set (cache c)" by (rule map_of_SomeD)
    with assms(1) have w: "w = range_sum_no_cache array l r"
      by (auto simp: consistent_def list_all_iff entry_ok_def)
    show ?thesis
    proof (cases "w = - 1")
      case True
      with Some fresh show ?thesis by (simp add: range_sum_with_cache_eq)
    next
      case False
      have "consistent array (c\<lparr>cache := filter (\<lambda>e. fst e \<noteq> (l, r)) (cache c) @ [((l, r), w)]\<rparr>)"
        using new old w by (simp add: consistent_def)
      with Some False w show ?thesis by (simp add: range_sum_with_cache_eq)
    qed
  qed
qed

lemma update_with_cache_consistent:
  assumes "consistent array c" and "0 \<le> i" "i < int (length array)"
  shows "\<exists>c'. update_with_cache array i v c = Inr (array[nat i := v], c')
           \<and> consistent (array[nat i := v]) c'"
proof -
  have "entry_ok (array[nat i := v]) e"
    if "e \<in> set (cache c)" and "\<not> (fst (fst e) \<le> i \<and> i \<le> snd (fst e))" for e
  proof -
    from that(1) assms(1) have ok: "entry_ok array e"
      by (simp add: consistent_def list_all_iff)
    then have "range_sum_no_cache (array[nat i := v]) (fst (fst e)) (snd (fst e))
               = range_sum_no_cache array (fst (fst e)) (snd (fst e))"
      using that(2) assms(2) by (intro range_sum_unchanged) (auto simp: entry_ok_def)
    with ok show ?thesis by (simp add: entry_ok_def)
  qed
  then have "consistent (array[nat i := v])
      (c\<lparr>cache := filter (\<lambda>e. \<not> (fst (fst e) \<le> i \<and> i \<le> snd (fst e))) (cache c)\<rparr>)"
    by (simp add: consistent_def list_all_iff)
  with assms show ?thesis
    by (simp add: update_with_cache_eq list_setitem_valid)
qed

lemma run_with_cache_consistent:
  "consistent array c \<Longrightarrow> list_all (valid_query (int (length array))) queries \<Longrightarrow>
   \<exists>results. run_no_cache array queries = Inr results
            \<and> run_with_cache array c queries = Inr results"
proof (induction queries arbitrary: array c)
  case Nil
  show ?case by simp
next
  case (Cons q queries)
  obtain query_type arg1 arg2 where q: "q = (query_type, arg1, arg2)" by (cases q)
  from Cons.prems have rest: "list_all (valid_query (int (length array))) queries"
    and vq: "valid_query (int (length array)) (query_type, arg1, arg2)"
    by (simp_all add: q)
  show ?case
  proof (cases "query_type = ''Range''")
    case True
    with vq have v: "0 \<le> arg1" "arg1 \<le> arg2" "arg2 < int (length array)" by simp_all
    from range_sum_with_cache_consistent [OF Cons.prems(1) v] obtain c' where
      r: "range_sum_with_cache array arg1 arg2 c = Inr (range_sum_no_cache array arg1 arg2, c')"
      and c': "consistent array c'" by blast
    from Cons.IH [OF c' rest] obtain results where
      "run_no_cache array queries = Inr results" "run_with_cache array c' queries = Inr results"
      by blast
    with True r show ?thesis by (simp add: q)
  next
    case False
    show ?thesis
    proof (cases "query_type = ''Update''")
      case True
      with False vq have v: "0 \<le> arg1" "arg1 < int (length array)" by simp_all
      from update_with_cache_consistent [OF Cons.prems(1) v, of arg2] obtain c' where
        u: "update_with_cache array arg1 arg2 c = Inr (array[nat arg1 := arg2], c')"
        and c': "consistent (array[nat arg1 := arg2]) c'" by blast
      from rest have "list_all (valid_query (int (length (array[nat arg1 := arg2])))) queries"
        by simp
      from Cons.IH [OF c' this] obtain results where
        "run_no_cache (array[nat arg1 := arg2]) queries = Inr results"
        "run_with_cache (array[nat arg1 := arg2]) c' queries = Inr results"
        by blast
      with True u v show ?thesis
        by (simp add: q update_no_cache_def list_setitem_valid)
    next
      case other: False
      from Cons.IH [OF Cons.prems(1) rest] False other show ?thesis by (simp add: q)
    qed
  qed
qed

text \<open>
  Claim C1. On every array, with a cache constructed for any capacity, every list of queries
  with valid arguments runs without an exception in both loops, and the sums the cached
  service returns are, query by query, the sums the baseline returns.
\<close>

theorem cached_equals_uncached:
  assumes "list_all (valid_query (int (length initial_array))) queries"
    and "LRUCache_init K = Inr lru_cache"
  shows "\<exists>results. run_no_cache initial_array queries = Inr results
            \<and> run_with_cache initial_array lru_cache queries = Inr results"
proof -
  from assms(2) have "consistent initial_array lru_cache"
    by (auto simp: LRUCache_init_def consistent_def)
  from run_with_cache_consistent [OF this assms(1)] show ?thesis .
qed

theorem cached_equals_uncached_witness:
  "list_all (valid_query (int (length [1, 2, 3, 4, 5 :: int])))
     [(''Range'', 1, 3), (''Update'', 2, 100), (''Range'', 1, 3), (''Range'', 0, 1),
      (''Range'', 1, 3)]
   \<and> LRUCache_init 1 = Inr \<lparr>cache = [], capacity = 1\<rparr>
   \<and> run_no_cache [1, 2, 3, 4, 5]
        [(''Range'', 1, 3), (''Update'', 2, 100), (''Range'', 1, 3), (''Range'', 0, 1),
         (''Range'', 1, 3)] = Inr [9, 106, 3, 106]
   \<and> run_with_cache [1, 2, 3, 4, 5] \<lparr>cache = [], capacity = 1\<rparr>
        [(''Range'', 1, 3), (''Update'', 2, 100), (''Range'', 1, 3), (''Range'', 0, 1),
         (''Range'', 1, 3)] = Inr [9, 106, 3, 106]"
proof -
  have v: "list_all (valid_query (int (length [1, 2, 3, 4, 5 :: int])))
     [(''Range'', 1, 3), (''Update'', 2, 100), (''Range'', 1, 3), (''Range'', 0, 1),
      (''Range'', 1, 3)]"
    by simp
  have i: "LRUCache_init 1 = Inr \<lparr>cache = [], capacity = 1\<rparr>"
    by (simp add: LRUCache_init_def)
  have n: "run_no_cache [1, 2, 3, 4, 5]
        [(''Range'', 1, 3), (''Update'', 2, 100), (''Range'', 1, 3), (''Range'', 0, 1),
         (''Range'', 1, 3)] = Inr [9, 106, 3, 106]"
    by (simp add: range_sum_no_cache_def py_slice_def slice_bound_def update_no_cache_def
        list_setitem_def Let_def nat_numeral list_update_code)
  from cached_equals_uncached [OF v i] n v i show ?thesis by simp
qed

section \<open>Least recently used order\<close>

lemma length_filter_neq:
  "distinct xs \<Longrightarrow>
   length (filter (\<lambda>x. x \<noteq> k) xs) = (if k \<in> set xs then length xs - 1 else length xs)"
proof (induction xs)
  case Nil
  show ?case by simp
next
  case (Cons x xs)
  then show ?case by (cases xs) auto
qed

lemma filter_neq_absent: "k \<notin> set xs \<Longrightarrow> filter (\<lambda>x. x \<noteq> k) xs = xs"
  by (induction xs) auto

lemma touch_order:
  assumes "distinct R" and "0 < n"
  shows "drop (length (filter (\<lambda>x. x \<noteq> k) R @ [k]) - n) (filter (\<lambda>x. x \<noteq> k) R @ [k])
         = trim_keys n (filter (\<lambda>x. x \<noteq> k) (drop (length R - n) R) @ [k])"
proof -
  define A where "A = take (length R - n) R"
  define B where "B = drop (length R - n) R"
  have R: "R = A @ B" by (simp add: A_def B_def)
  have dAB: "distinct A" "distinct B" "set A \<inter> set B = {}"
    using assms(1) unfolding R by auto
  consider (short) "length R \<le> n" | (inB) "n < length R" "k \<in> set B"
    | (notB) "n < length R" "k \<notin> set B" by linarith
  then show ?thesis
  proof cases
    case short
    then have B: "B = R" by (simp add: B_def)
    have len: "length (filter (\<lambda>x. x \<noteq> k) R) \<le> n"
      using short length_filter_le [of "\<lambda>x. x \<noteq> k" R] by linarith
    show ?thesis
    proof (cases "length (filter (\<lambda>x. x \<noteq> k) R) = n")
      case True
      with assms(2) have "filter (\<lambda>x. x \<noteq> k) R \<noteq> []" by auto
      with True assms(2) show ?thesis
        using B by (simp add: trim_keys_def B_def [symmetric] drop_Suc)
    next
      case False
      with len have "length (filter (\<lambda>x. x \<noteq> k) R) < n" by simp
      then show ?thesis
        using B by (simp add: trim_keys_def B_def [symmetric])
    qed
  next
    case inB
    then have lenB: "length B = n" by (simp add: B_def)
    from inB dAB have "k \<notin> set A" by auto
    then have fA: "filter (\<lambda>x. x \<noteq> k) A = A" by (rule filter_neq_absent)
    have fB: "length (filter (\<lambda>x. x \<noteq> k) B) = n - 1"
      using length_filter_neq [OF dAB(2), of k] inB lenB by simp
    have "filter (\<lambda>x. x \<noteq> k) R = A @ filter (\<lambda>x. x \<noteq> k) B"
      by (simp add: R fA)
    then show ?thesis
      using fB assms(2) by (simp add: trim_keys_def B_def [symmetric])
  next
    case notB
    then have lenB: "length B = n" by (simp add: B_def)
    from notB have fB: "filter (\<lambda>x. x \<noteq> k) B = B" by (simp add: filter_neq_absent)
    have fR: "filter (\<lambda>x. x \<noteq> k) R = filter (\<lambda>x. x \<noteq> k) A @ B"
      by (simp add: R fB)
    from lenB assms(2) have "B \<noteq> []" by auto
    then show ?thesis
      using lenB assms(2) by (simp add: trim_keys_def B_def [symmetric] fR fB drop_Suc)
  qed
qed

lemma remdups_snoc: "remdups (T @ [k]) = filter (\<lambda>x. x \<noteq> k) (remdups T) @ [k]"
  by (induction T) auto

lemma last_distinct_snoc:
  assumes "0 < n"
  shows "last_distinct n (T @ [k])
         = trim_keys n (filter (\<lambda>x. x \<noteq> k) (last_distinct n T) @ [k])"
proof -
  show ?thesis
    using touch_order [of "remdups T" n k] assms
    by (simp add: last_distinct_def Let_def remdups_snoc)
qed

lemma distinct_last_distinct: "distinct (last_distinct n T)"
  by (simp add: last_distinct_def Let_def)

lemma length_last_distinct: "length (last_distinct n T) \<le> n"
  by (simp add: last_distinct_def Let_def)

lemma keys_trim:
  "0 \<le> cap \<Longrightarrow> map fst (trim cap d) = trim_keys (nat cap) (map fst d)"
  by (auto simp: trim_def trim_keys_def map_tl)

lemma keys_filter:
  "map fst (filter (\<lambda>e. fst e \<noteq> k) d) = filter (\<lambda>x. x \<noteq> k) (map fst d)"
  by (induction d) auto

lemma LRUCache_put_trim:
  "LRUCache_put c k v =
     Inr (c\<lparr>cache := trim (capacity c) (filter (\<lambda>e. fst e \<noteq> k) (cache c) @ [(k, v)])\<rparr>)"
  by (simp add: LRUCache_put_eq put_keyed_eq trim_def)

lemma put_recency:
  assumes "0 < capacity c"
    and "map fst (cache c) = last_distinct (nat (capacity c)) T"
  shows "\<exists>c'. LRUCache_put c k v = Inr c' \<and> capacity c' = capacity c
           \<and> map fst (cache c') = last_distinct (nat (capacity c)) (T @ [k])"
proof -
  from assms(1) have n: "0 < nat (capacity c)" by simp
  have "map fst (trim (capacity c) (filter (\<lambda>e. fst e \<noteq> k) (cache c) @ [(k, v)]))
        = last_distinct (nat (capacity c)) (T @ [k])"
    using assms by (simp add: keys_trim keys_filter last_distinct_snoc [OF n])
  then show ?thesis by (simp add: LRUCache_put_trim)
qed

lemma get_recency:
  assumes "0 < capacity c"
    and "map fst (cache c) = last_distinct (nat (capacity c)) T"
  shows "\<exists>v c'. LRUCache_get c k = Inr (v, c') \<and> capacity c' = capacity c
           \<and> map fst (cache c')
               = last_distinct (nat (capacity c))
                   (T @ (if od_contains (cache c) k then [k] else []))"
proof (cases "map_of (cache c) k")
  case None
  then have "\<not> od_contains (cache c) k" by (simp add: od_contains_map_of)
  with None assms show ?thesis by (simp add: LRUCache_get_eq)
next
  case (Some w)
  then have hit: "od_contains (cache c) k" by (simp add: od_contains_map_of)
  then have k: "k \<in> set (last_distinct (nat (capacity c)) T)"
    using assms(2) by (simp add: od_contains_def)
  from assms(1) have n: "0 < nat (capacity c)" by simp
  have "length (filter (\<lambda>x. x \<noteq> k) (last_distinct (nat (capacity c)) T) @ [k])
        = length (last_distinct (nat (capacity c)) T)"
    using length_filter_neq [OF distinct_last_distinct, of k "nat (capacity c)" T] k
    by (cases "last_distinct (nat (capacity c)) T") auto
  then have "trim_keys (nat (capacity c))
               (filter (\<lambda>x. x \<noteq> k) (last_distinct (nat (capacity c)) T) @ [k])
             = filter (\<lambda>x. x \<noteq> k) (last_distinct (nat (capacity c)) T) @ [k]"
    using length_last_distinct [of "nat (capacity c)" T] by (simp add: trim_keys_def)
  then have "map fst (filter (\<lambda>e. fst e \<noteq> k) (cache c) @ [(k, w)])
             = last_distinct (nat (capacity c)) (T @ [k])"
    using assms(2) by (simp add: keys_filter last_distinct_snoc [OF n])
  with Some hit show ?thesis by (simp add: LRUCache_get_eq)
qed

lemma run_calls_recency:
  "0 < capacity c \<Longrightarrow> map fst (cache c) = last_distinct (nat (capacity c)) T \<Longrightarrow>
   \<exists>c'. run_calls c calls = Inr c' \<and> capacity c' = capacity c
      \<and> map fst (cache c') = last_distinct (nat (capacity c)) (T @ touched_keys c calls)"
proof (induction calls arbitrary: c T)
  case Nil
  then show ?case by simp
next
  case (Cons a calls)
  show ?case
  proof (cases a)
    case (Get k)
    from get_recency [OF Cons.prems, of k] obtain v c1 where
      g: "LRUCache_get c k = Inr (v, c1)" and cap: "capacity c1 = capacity c"
      and keys: "map fst (cache c1)
                 = last_distinct (nat (capacity c))
                     (T @ (if od_contains (cache c) k then [k] else []))"
      by blast
    from Cons.prems(1) cap have pos: "0 < capacity c1" by simp
    from Cons.IH [OF pos, of "T @ (if od_contains (cache c) k then [k] else [])"] keys cap
    obtain c' where "run_calls c1 calls = Inr c'" "capacity c' = capacity c"
      "map fst (cache c')
       = last_distinct (nat (capacity c))
           ((T @ (if od_contains (cache c) k then [k] else [])) @ touched_keys c1 calls)"
      by auto
    with g Get show ?thesis by simp
  next
    case (Put k v)
    from put_recency [OF Cons.prems, of k v] obtain c1 where
      p: "LRUCache_put c k v = Inr c1" and cap: "capacity c1 = capacity c"
      and keys: "map fst (cache c1) = last_distinct (nat (capacity c)) (T @ [k])"
      by blast
    from Cons.prems(1) cap have pos: "0 < capacity c1" by simp
    from Cons.IH [OF pos, of "T @ [k]"] keys cap
    obtain c' where "run_calls c1 calls = Inr c'" "capacity c' = capacity c"
      "map fst (cache c') = last_distinct (nat (capacity c)) ((T @ [k]) @ touched_keys c1 calls)"
      by auto
    with p Put show ?thesis by simp
  qed
qed

lemma put_evicts_oldest:
  assumes "k \<notin> fst ` set (cache c)" and "int (length (cache c)) = capacity c"
    and "0 < capacity c"
  shows "LRUCache_put c k v = Inr (c\<lparr>cache := tl (cache c) @ [(k, v)]\<rparr>)"
proof -
  from assms have "cache c \<noteq> []" by auto
  with assms show ?thesis
    by (simp add: LRUCache_put_trim filter_key_absent trim_def)
qed

lemma length_last_distinct_card:
  "length (last_distinct n T) = min n (card (set T))"
  by (simp add: last_distinct_def Let_def length_remdups_card_conv)

text \<open>
  Claim C4. From a cache constructed with a capacity \<open>K > 0\<close>, after any sequence of
  \<^verbatim>\<open>put\<close> and \<^verbatim>\<open>get\<close> calls the keys of the cache, in dictionary order, are the last \<open>K\<close>
  distinct keys touched, the least recently touched first; there are \<open>K\<close> of them as soon
  as more than \<open>K\<close> distinct keys have been touched. A \<^verbatim>\<open>put\<close> of a new key into the full
  cache removes the first key of that order, the least recently touched one, which among
  keys never touched again is the one inserted first.
\<close>

theorem lru_recency:
  assumes "0 < K" and "LRUCache_init K = Inr c0"
  shows "\<exists>c. run_calls c0 calls = Inr c
           \<and> LRUCache_get_all_keys c = last_distinct (nat K) (touched_keys c0 calls)
           \<and> length (LRUCache_get_all_keys c) = min (nat K) (card (set (touched_keys c0 calls)))
           \<and> (\<forall>k v. k \<notin> set (LRUCache_get_all_keys c) \<and> int (length (cache c)) = K \<longrightarrow>
                 (\<exists>c'. LRUCache_put c k v = Inr c'
                    \<and> LRUCache_get_all_keys c' = tl (LRUCache_get_all_keys c) @ [k]))"
proof -
  from assms have c0: "0 < capacity c0" "capacity c0 = K"
    "map fst (cache c0) = last_distinct (nat (capacity c0)) []"
    by (auto simp: LRUCache_init_def last_distinct_def)
  from run_calls_recency [OF c0(1) c0(3), of calls] c0(2) obtain c where
    r: "run_calls c0 calls = Inr c" and cap: "capacity c = K"
    and keys: "map fst (cache c) = last_distinct (nat K) (touched_keys c0 calls)"
    by auto
  have order: "LRUCache_get_all_keys c = last_distinct (nat K) (touched_keys c0 calls)"
    using keys by (simp add: LRUCache_get_all_keys_def)
  have len: "length (LRUCache_get_all_keys c) = min (nat K) (card (set (touched_keys c0 calls)))"
    unfolding order by (rule length_last_distinct_card)
  have evict: "\<exists>c'. LRUCache_put c k v = Inr c'
          \<and> LRUCache_get_all_keys c' = tl (LRUCache_get_all_keys c) @ [k]"
    if "k \<notin> set (LRUCache_get_all_keys c) \<and> int (length (cache c)) = K" for k v
    using that put_evicts_oldest [of k c v] cap assms(1)
    by (simp add: LRUCache_get_all_keys_def map_tl)
  from r order len evict show ?thesis by blast
qed

theorem lru_recency_witness:
  "(0::int) < 2 \<and> LRUCache_init 2 = Inr \<lparr>cache = [], capacity = 2\<rparr>
   \<and> run_calls \<lparr>cache = [], capacity = 2\<rparr>
        [Put (0, 2) 10, Put (1, 3) 20, Put (2, 4) 30, Get (0, 2), Get (1, 3), Put (5, 6) 40]
       = Inr \<lparr>cache = [((1, 3), 20), ((5, 6), 40)], capacity = 2\<rparr>
   \<and> touched_keys \<lparr>cache = [], capacity = 2\<rparr>
        [Put (0, 2) 10, Put (1, 3) 20, Put (2, 4) 30, Get (0, 2), Get (1, 3), Put (5, 6) 40]
       = [(0, 2), (1, 3), (2, 4), (1, 3), (5, 6)]
   \<and> LRUCache_get_all_keys \<lparr>cache = [((1, 3), 20), ((5, 6), 40)], capacity = 2\<rparr>
       = last_distinct (nat 2) [(0, 2), (1, 3), (2, 4), (1, 3), (5, 6)]
   \<and> (\<exists>c'. LRUCache_put \<lparr>cache = [((1, 3), 20), ((5, 6), 40)], capacity = 2\<rparr> (7, 8) 50 = Inr c'
          \<and> LRUCache_get_all_keys c' = [(5, 6), (7, 8)])"
proof -
  have i: "LRUCache_init 2 = Inr \<lparr>cache = [], capacity = 2\<rparr>"
    by (simp add: LRUCache_init_def)
  have r: "run_calls \<lparr>cache = [], capacity = 2\<rparr>
        [Put (0, 2) 10, Put (1, 3) 20, Put (2, 4) 30, Get (0, 2), Get (1, 3), Put (5, 6) 40]
       = Inr \<lparr>cache = [((1, 3), 20), ((5, 6), 40)], capacity = 2\<rparr>"
    by (simp add: LRUCache_get_eq LRUCache_put_eq put_keyed_def)
  have t: "touched_keys \<lparr>cache = [], capacity = 2\<rparr>
        [Put (0, 2) 10, Put (1, 3) 20, Put (2, 4) 30, Get (0, 2), Get (1, 3), Put (5, 6) 40]
       = [(0, 2), (1, 3), (2, 4), (1, 3), (5, 6)]"
    by (simp add: LRUCache_get_eq LRUCache_put_eq put_keyed_def od_contains_def)
  have pos: "(0::int) < 2" by simp
  from lru_recency [OF pos i,
      of "[Put (0, 2) 10, Put (1, 3) 20, Put (2, 4) 30, Get (0, 2), Get (1, 3), Put (5, 6) 40]"]
  have keys: "LRUCache_get_all_keys \<lparr>cache = [((1, 3), 20), ((5, 6), 40)], capacity = 2\<rparr>
       = last_distinct (nat 2) [(0, 2), (1, 3), (2, 4), (1, 3), (5, 6)]"
    and ev: "\<forall>k v. k \<notin> set (LRUCache_get_all_keys
                                 \<lparr>cache = [((1, 3), 20), ((5, 6), 40)], capacity = 2\<rparr>)
                  \<and> int (length (cache \<lparr>cache = [((1, 3), 20), ((5, 6), 40)], capacity = 2\<rparr>)) = 2
              \<longrightarrow> (\<exists>c'. LRUCache_put \<lparr>cache = [((1, 3), 20), ((5, 6), 40)], capacity = 2\<rparr> k v
                           = Inr c'
                    \<and> LRUCache_get_all_keys c'
                        = tl (LRUCache_get_all_keys
                                \<lparr>cache = [((1, 3), 20), ((5, 6), 40)], capacity = 2\<rparr>) @ [k])"
    unfolding r t by auto
  from ev have "\<exists>c'. LRUCache_put \<lparr>cache = [((1, 3), 20), ((5, 6), 40)], capacity = 2\<rparr> (7, 8) 50
                        = Inr c'
                 \<and> LRUCache_get_all_keys c' = [(5, 6), (7, 8)]"
    by (simp add: LRUCache_get_all_keys_def)
  with i r t keys show ?thesis by simp
qed

section \<open>Hot ranges\<close>

lemma randint_bounds:
  assumes "a \<le> b"
  shows "\<exists>x rs'. randint a b rs = Inr (x, rs') \<and> a \<le> x \<and> x \<le> b"
proof -
  from assms have pos: "0 < nat (b - a + 1)" by simp
  have "rs 0 mod nat (b - a + 1) < nat (b - a + 1)"
    using pos by (rule mod_less_divisor)
  then have "a + int (rs 0 mod nat (b - a + 1)) \<le> b" by linarith
  with assms show ?thesis by (simp add: randint_def)
qed

lemma make_hot_bounds:
  assumes "1 \<le> n"
  shows "\<exists>hot rs'. make_hot n m rs = Inr (hot, rs') \<and> length hot = m
           \<and> list_all (hot_range_ok n) hot"
proof (induction m arbitrary: rs)
  case 0
  show ?case by simp
next
  case (Suc m)
  from assms have lo: "0 \<le> n div 2" and hi: "n div 2 \<le> n - 1" by simp_all
  from randint_bounds [OF lo, of rs] obtain left rs1 where
    l: "randint 0 (n div 2) rs = Inr (left, rs1)" "0 \<le> left" "left \<le> n div 2" by blast
  from randint_bounds [OF hi, of rs1] obtain right rs2 where
    r: "randint (n div 2) (n - 1) rs1 = Inr (right, rs2)" "n div 2 \<le> right" "right \<le> n - 1"
    by blast
  from Suc.IH [of rs2] obtain hot rs3 where
    h: "make_hot n m rs2 = Inr (hot, rs3)" "length hot = m" "list_all (hot_range_ok n) hot"
    by blast
  from l(2,3) r(2,3) have "hot_range_ok n (left, right)" by (simp add: hot_range_ok_def)
  with l(1) r(1) h show ?case by simp
qed

text \<open>
  Claim C9, as the code has it. For an array of length \<open>n \<ge> 1\<close> and every random source the
  generator builds \<^verbatim>\<open>hot_pool\<close> ranges (none when \<^verbatim>\<open>hot_pool\<close> is negative), each with
  \<open>0 \<le> left \<le> n div 2\<close> and \<open>n div 2 \<le> right \<le> n - 1\<close>, hence \<open>left \<le> right\<close>. The upper
  bound of the left end is included.
\<close>

theorem hot_pool_bounds:
  assumes "1 \<le> n"
  shows "\<exists>hot. make_queries_hot n hot_pool rs = Inr hot
           \<and> length hot = nat hot_pool
           \<and> list_all (hot_range_ok n) hot"
proof -
  from make_hot_bounds [OF assms, of "nat hot_pool" rs] obtain hot rs' where
    "make_hot n (nat hot_pool) rs = Inr (hot, rs')" "length hot = nat hot_pool"
    "list_all (hot_range_ok n) hot" by blast
  then show ?thesis by (simp add: make_queries_hot_def)
qed

text \<open>
  With \<open>n = 2\<close> and a source whose draws are all 1, the one hot range is \<open>(1, 1)\<close>: its left
  end is \<open>n div 2\<close>, not below it.
\<close>

theorem hot_left_reaches_midpoint:
  "make_queries_hot 2 1 (constant_draws 1) = Inr [(1, 1)] \<and> \<not> ((1::int) < 2 div 2)"
  by (simp add: make_queries_hot_def randint_def constant_draws_def)

theorem hot_pool_bounds_witness:
  "(1::int) \<le> 2
   \<and> make_queries_hot 2 1 (constant_draws 1) = Inr [(1, 1)]
   \<and> length [(1::int, 1::int)] = nat 1
   \<and> list_all (hot_range_ok 2) [(1, 1)]"
proof -
  have "make_queries_hot 2 1 (constant_draws 1) = Inr [(1, 1)]"
    by (simp add: make_queries_hot_def randint_def constant_draws_def)
  with hot_pool_bounds [of 2 1 "constant_draws 1"] show ?thesis by simp
qed

section \<open>The dictionary invariant is kept\<close>

text \<open>
  A constructed cache has one entry per key, and every operation keeps it so: the caches
  a program can reach are the ones \<open>wf_cache\<close> describes.
\<close>

lemma distinct_keys_moved:
  "distinct (map fst d) \<Longrightarrow> distinct (map fst (filter (\<lambda>e. fst e \<noteq> k) d @ [(k, v)]))"
  by (simp add: keys_filter)

lemma distinct_keys_trim:
  "distinct (map fst d) \<Longrightarrow> distinct (map fst (trim cap d))"
  by (simp add: trim_def map_tl distinct_tl)

lemma wf_cache_init: "LRUCache_init K = Inr c \<Longrightarrow> wf_cache c"
  by (auto simp: LRUCache_init_def wf_cache_def)

lemma wf_cache_get:
  assumes "wf_cache c" and "LRUCache_get c k = Inr (v, c')"
  shows "wf_cache c'"
proof (cases "map_of (cache c) k")
  case None
  with assms show ?thesis by (simp add: LRUCache_get_eq)
next
  case (Some w)
  with assms distinct_keys_moved [of "cache c" k w] show ?thesis
    by (auto simp: LRUCache_get_eq wf_cache_def)
qed

lemma wf_cache_put:
  assumes "wf_cache c" and "LRUCache_put c k v = Inr c'"
  shows "wf_cache c'"
  using assms distinct_keys_trim [OF distinct_keys_moved, of "cache c" "capacity c" k v]
  by (auto simp: LRUCache_put_trim wf_cache_def)

lemma wf_cache_update:
  assumes "wf_cache c" and "update_with_cache array index val c = Inr (array', c')"
  shows "wf_cache c'"
  using assms
  by (auto simp: update_with_cache_eq wf_cache_def distinct_map_filter split: sum.splits)

lemma wf_cache_run_calls:
  "wf_cache c \<Longrightarrow> run_calls c calls = Inr c' \<Longrightarrow> wf_cache c'"
proof (induction calls arbitrary: c)
  case Nil
  then show ?case by simp
next
  case (Cons a calls)
  show ?case
  proof (cases a)
    case (Get k)
    with Cons.prems obtain v c1 where g: "LRUCache_get c k = Inr (v, c1)"
      and r: "run_calls c1 calls = Inr c'"
      by (auto split: sum.splits)
    from Cons.IH [OF wf_cache_get [OF Cons.prems(1) g] r] show ?thesis .
  next
    case (Put k v)
    with Cons.prems obtain c1 where p: "LRUCache_put c k v = Inr c1"
      and r: "run_calls c1 calls = Inr c'"
      by (auto split: sum.splits)
    from Cons.IH [OF wf_cache_put [OF Cons.prems(1) p] r] show ?thesis .
  qed
qed

lemma wf_cache_range_sum:
  assumes "wf_cache c" and "range_sum_with_cache array l r c = Inr (v, c')"
  shows "wf_cache c'"
proof -
  have moved: "distinct (map fst (filter (\<lambda>e. fst e \<noteq> (l, r)) (cache c) @ [((l, r), w)]))" for w
    using assms(1) by (intro distinct_keys_moved) (simp add: wf_cache_def)
  from assms(2) moved distinct_keys_trim [OF moved] show ?thesis
    by (auto simp: range_sum_with_cache_eq wf_cache_def split: option.splits if_splits)
qed

end
